theory Spec2Isabelle
  imports Main "HOL-Library.AList" "HOL-Library.Multiset"
begin

section \<open>Strings\<close>

text \<open>
  The worker route (\<^verbatim>\<open>src/app/api/worker/route.ts\<close>) works on JavaScript strings.
  A string is modelled as a \<^typ>\<open>string\<close>, one \<^typ>\<open>char\<close> per code unit, so
  the model covers texts whose code units lie in \<open>0..255\<close> (ASCII and Latin-1). On
  that range \<^verbatim>\<open>String.prototype.toLowerCase\<close> works unit by unit: it adds 32 to
  the units of \<open>A..Z\<close> and of the Latin-1 capitals (192..222 without the
  multiplication sign 215) and leaves every other unit alone.
\<close>

definition toLowerChar :: "char \<Rightarrow> char" where
  "toLowerChar c =
     (let n = (of_char c :: nat)
      in if (65 \<le> n \<and> n \<le> 90) \<or> (192 \<le> n \<and> n \<le> 222 \<and> n \<noteq> 215)
         then char_of (n + 32) else c)"

definition toLowerCase :: "string \<Rightarrow> string" where
  "toLowerCase s = map toLowerChar s"

text \<open>
  \<^verbatim>\<open>s.includes(kw)\<close>: \<open>kw\<close> occurs in \<open>s\<close> as a contiguous run of code units.
  \<open>startsWith s kw\<close> compares \<open>kw\<close> with the beginning of \<open>s\<close>; \<open>str_includes\<close>
  tries every starting position from left to right.
\<close>

fun startsWith :: "string \<Rightarrow> string \<Rightarrow> bool" where
  "startsWith s [] = True"
| "startsWith [] (k # ks) = False"
| "startsWith (c # cs) (k # ks) = (c = k \<and> startsWith cs ks)"

fun str_includes :: "string \<Rightarrow> string \<Rightarrow> bool" where
  "str_includes [] kw = startsWith [] kw"
| "str_includes (c # cs) kw = (startsWith (c # cs) kw \<or> str_includes cs kw)"

text \<open>
  \<^verbatim>\<open>s.trim()\<close> removes the leading and trailing white space and line terminators
  of ECMAScript; on the modelled range these are TAB, LF, VT, FF, CR, SPACE and the
  no-break space 160.
\<close>

definition isWhiteSpace :: "char \<Rightarrow> bool" where
  "isWhiteSpace c =
     (let n = (of_char c :: nat) in (9 \<le> n \<and> n \<le> 13) \<or> n = 32 \<or> n = 160)"

definition trim :: "string \<Rightarrow> string" where
  "trim s = rev (dropWhile isWhiteSpace (rev (dropWhile isWhiteSpace s)))"

text \<open>\<^verbatim>\<open>s.substring(0, n)\<close> and \<^verbatim>\<open>xs.slice(0, n)\<close> keep the first \<open>n\<close> elements.\<close>

definition substring0 :: "string \<Rightarrow> nat \<Rightarrow> string" where
  "substring0 s n = take n s"

definition slice0 :: "'a list \<Rightarrow> nat \<Rightarrow> 'a list" where
  "slice0 xs n = take n xs"

section \<open>The classifier\<close>

datatype severity = Low | Medium | High | Critical

text \<open>\<^verbatim>\<open>detectErrorType\<close>, \<^verbatim>\<open>assessSeverity\<close> and \<^verbatim>\<open>generateSuggestions\<close>, branch by branch.\<close>

definition detectErrorType :: "string \<Rightarrow> string" where
  "detectErrorType error =
     (let lowerError = toLowerCase error
      in if str_includes lowerError ''syntax'' then ''Syntax Error''
         else if str_includes lowerError ''type'' then ''Type Error''
         else if str_includes lowerError ''reference'' then ''Reference Error''
         else if str_includes lowerError ''network'' then ''Network Error''
         else if str_includes lowerError ''timeout'' then ''Timeout Error''
         else ''General Error'')"

definition assessSeverity :: "string \<Rightarrow> severity" where
  "assessSeverity error =
     (let lowerError = toLowerCase error
      in if str_includes lowerError ''critical'' \<or> str_includes lowerError ''fatal'' then Critical
         else if str_includes lowerError ''error'' \<or> str_includes lowerError ''exception'' then High
         else if str_includes lowerError ''warning'' then Medium
         else Low)"

definition generateSuggestions :: "string \<Rightarrow> string list" where
  "generateSuggestions error =
     (let suggestions = [''Review error logs for additional context'', ''Check recent code changes''];
          lowerError = toLowerCase error;
          suggestions =
            (if str_includes lowerError ''syntax''
             then suggestions @ [''Validate code syntax'', ''Check for missing brackets or semicolons'']
             else suggestions);
          suggestions =
            (if str_includes lowerError ''network''
             then suggestions @ [''Verify network connectivity'', ''Check API endpoints'']
             else suggestions);
          suggestions =
            (if str_includes lowerError ''timeout''
             then suggestions @ [''Increase timeout duration'', ''Optimize query performance'']
             else suggestions)
      in suggestions)"

subsection \<open>What the specification calls a case-insensitive substring match\<close>

text \<open>
  The specification's wording, stated without \<open>toLowerCase\<close>: a keyword (written in
  lower-case letters \<open>a..z\<close>) occurs in a text ignoring case when some contiguous part
  of the text has the keyword's length and carries, at every position, the keyword's
  letter or its capital.
\<close>

definition lowerLetter :: "char \<Rightarrow> bool" where
  "lowerLetter k = (97 \<le> (of_char k :: nat) \<and> (of_char k :: nat) \<le> 122)"

definition capitalOf :: "char \<Rightarrow> char" where
  "capitalOf k = char_of ((of_char k :: nat) - 32)"

definition sameLetter :: "char \<Rightarrow> char \<Rightarrow> bool" where
  "sameLetter k c = (c = k \<or> c = capitalOf k)"

definition occursIgnoringCase :: "string \<Rightarrow> string \<Rightarrow> bool" where
  "occursIgnoringCase kw text =
     (\<exists>pre mid post. text = pre @ mid @ post \<and> list_all2 sameLetter kw mid)"

text \<open>The three rules of the specification's classifier, in its words.\<close>

definition spec_errorType :: "string \<Rightarrow> string" where
  "spec_errorType text =
     (if occursIgnoringCase ''syntax'' text then ''Syntax Error''
      else if occursIgnoringCase ''type'' text then ''Type Error''
      else if occursIgnoringCase ''reference'' text then ''Reference Error''
      else if occursIgnoringCase ''network'' text then ''Network Error''
      else if occursIgnoringCase ''timeout'' text then ''Timeout Error''
      else ''General Error'')"

definition spec_severity :: "string \<Rightarrow> severity" where
  "spec_severity text =
     (if occursIgnoringCase ''critical'' text \<or> occursIgnoringCase ''fatal'' text then Critical
      else if occursIgnoringCase ''error'' text \<or> occursIgnoringCase ''exception'' text then High
      else if occursIgnoringCase ''warning'' text then Medium
      else Low)"

definition spec_suggestions :: "string \<Rightarrow> string list" where
  "spec_suggestions text =
     [''Review error logs for additional context'', ''Check recent code changes'']
     @ (if occursIgnoringCase ''syntax'' text
        then [''Validate code syntax'', ''Check for missing brackets or semicolons''] else [])
     @ (if occursIgnoringCase ''network'' text
        then [''Verify network connectivity'', ''Check API endpoints''] else [])
     @ (if occursIgnoringCase ''timeout'' text
        then [''Increase timeout duration'', ''Optimize query performance''] else [])"

section \<open>The data model\<close>

text \<open>
  \<^verbatim>\<open>workflowResult\<close> (lines 61 to 66) and \<^verbatim>\<open>WorkflowRecord\<close> (lines 71 to 75) as the
  route builds them. A \<^verbatim>\<open>Date\<close> is its number of milliseconds, and
  \<^verbatim>\<open>toISOString\<close>, which prints it, is left out. Field names that clash with a
  constant of HOL or with a field of another record carry a suffix.
\<close>

record WorkflowResult =
  errorType :: string
  severity :: severity
  suggestions :: "string list"
  processedAt :: nat

record WorkflowRecord =
  id_r :: string
  result :: WorkflowResult
  timestamp_r :: nat

text \<open>
  The store \<^verbatim>\<open>memory\<close> (lines 5 to 14). The two objects used as counters are
  association lists in insertion order, \<^verbatim>\<open>null\<close> is \<open>None\<close>, and a counter is a
  natural number: the model assumes that counts stay below \<open>2^53\<close>, where adding 1
  to a JavaScript number is exact.
\<close>

record Statistics =
  errorTypes :: "(string \<times> nat) list"
  severityCount :: "(severity \<times> nat) list"
  averageProcessingTime :: nat

record MemoryStore =
  totalErrors :: nat
  lastProcessed :: "string option"
  workflows :: "WorkflowRecord list"
  statistics :: Statistics

text \<open>
  Modelled from the spec: the declaration of \<^verbatim>\<open>RealtimeEvent\<close> is in
  \<^verbatim>\<open>lib/realtime\<close>, which is not among the sources. The kinds and statuses are the
  specification's enumerations (section 3, LifecycleEvent); the fields are the ones the
  route fills in, and \<^verbatim>\<open>data\<close> is absent, the store as it is when the event is
  emitted, or a classification result.
\<close>

datatype event_type =
  T_validation | T_workflow | T_memory_update | T_completed | T_error | T_connected

datatype event_status = S_processing | S_completed | S_error

datatype event_data = No_data | Memory_data MemoryStore | Workflow_data WorkflowResult

record RealtimeEvent =
  id_e :: string
  type_e :: event_type
  message :: string
  timestamp_e :: nat
  status :: event_status
  data :: event_data

text \<open>
  The mutable state the route works on: the module's store \<^verbatim>\<open>memory\<close> and the
  events published so far, oldest first.
\<close>

record world =
  memory :: MemoryStore
  published :: "RealtimeEvent list"

text \<open>
  Modelled from the spec: \<^verbatim>\<open>realtimeEvents.emit\<close> is in \<^verbatim>\<open>lib/realtime\<close>, which is
  not among the sources. Following section 4.1 of the specification, publishing hands
  the event to the subscribers in publish order and never fails; the model records
  the event at the end of the published sequence.
\<close>

definition emit :: "RealtimeEvent \<Rightarrow> world \<Rightarrow> world" where
  "emit event w = w\<lparr>published := published w @ [event]\<rparr>"

text \<open>The state when the process starts: the store of lines 5 to 14, and nothing published.\<close>

definition start :: world where
  "start =
     \<lparr>memory =
        \<lparr>totalErrors = 0, lastProcessed = None, workflows = [],
         statistics = \<lparr>errorTypes = [], severityCount = [], averageProcessingTime = 0\<rparr>\<rparr>,
      published = []\<rparr>"

section \<open>Requests and responses\<close>

text \<open>
  The field \<^verbatim>\<open>error\<close> of the parsed body is any JSON value, or \<^verbatim>\<open>undefined\<close> when
  the body has no such field. A number is given by an integer (only whether it is
  zero matters to the route), and \<open>JObject\<close> stands for every array and object.
  The request identifier \<^verbatim>\<open>eventId\<close> is a string, as the interface of the
  specification (section 6) declares it. \<open>Unreadable\<close> is a request whose body
  \<^verbatim>\<open>request.json()\<close> rejects or whose body is \<^verbatim>\<open>null\<close>: line 18 or 19 throws.
\<close>

datatype jsvalue = JUndefined | JNull | JBoolean bool | JNumber int | JString string | JObject

datatype request = Unreadable | Body jsvalue string

text \<open>
  \<^verbatim>\<open>Response.json\<close>: the success body with the classification and the store, or a
  failure body with its message and HTTP status.
\<close>

datatype response = Success WorkflowResult MemoryStore | Failure string nat

text \<open>\<^verbatim>\<open>!error\<close> is the negation of JavaScript's truthiness.\<close>

fun truthy :: "jsvalue \<Rightarrow> bool" where
  "truthy JUndefined = False"
| "truthy JNull = False"
| "truthy (JBoolean b) = b"
| "truthy (JNumber n) = (n \<noteq> 0)"
| "truthy (JString s) = (s \<noteq> [])"
| "truthy JObject = True"

section \<open>The route handler\<close>

text \<open>
  Each \<^verbatim>\<open>new Date()\<close> reads the clock; \<open>now k\<close> is the time read by the \<open>k\<close>-th
  reading of one run of \<^verbatim>\<open>POST\<close>, counted from 0 in the order of the source text
  (the validation event 0, the error or workflow event 1, \<^verbatim>\<open>processedAt\<close> 2, the
  record 3, the memory event 4, the completed event 5).
\<close>

type_synonym clock = "nat \<Rightarrow> nat"

definition validationEvent :: "clock \<Rightarrow> string \<Rightarrow> RealtimeEvent" where
  "validationEvent now eventId =
     \<lparr>id_e = eventId @ ''_validation'', type_e = T_validation,
      message = ''Validating error input...'', timestamp_e = now 0,
      status = S_processing, data = No_data\<rparr>"

definition errorEvent :: "clock \<Rightarrow> string \<Rightarrow> RealtimeEvent" where
  "errorEvent now eventId =
     \<lparr>id_e = eventId @ ''_error'', type_e = T_validation,
      message = ''Validation failed: Empty error message'', timestamp_e = now 1,
      status = S_error, data = No_data\<rparr>"

definition workflowEvent :: "clock \<Rightarrow> string \<Rightarrow> RealtimeEvent" where
  "workflowEvent now eventId =
     \<lparr>id_e = eventId @ ''_workflow'', type_e = T_workflow,
      message = ''Calling error processing workflow...'', timestamp_e = now 1,
      status = S_processing, data = No_data\<rparr>"

definition workflowResult :: "clock \<Rightarrow> string \<Rightarrow> WorkflowResult" where
  "workflowResult now error =
     \<lparr>errorType = detectErrorType error, severity = assessSeverity error,
      suggestions = generateSuggestions error, processedAt = now 2\<rparr>"

definition workflowRecord :: "clock \<Rightarrow> string \<Rightarrow> string \<Rightarrow> WorkflowRecord" where
  "workflowRecord now error eventId =
     \<lparr>id_r = eventId, result = workflowResult now error, timestamp_r = now 3\<rparr>"

definition memoryEvent :: "clock \<Rightarrow> string \<Rightarrow> MemoryStore \<Rightarrow> RealtimeEvent" where
  "memoryEvent now eventId m =
     \<lparr>id_e = eventId @ ''_memory'', type_e = T_memory_update,
      message = ''Memory store updated'', timestamp_e = now 4,
      status = S_completed, data = Memory_data m\<rparr>"

definition completedEvent :: "clock \<Rightarrow> string \<Rightarrow> WorkflowResult \<Rightarrow> RealtimeEvent" where
  "completedEvent now eventId r =
     \<lparr>id_e = eventId, type_e = T_completed,
      message = ''Error processed successfully: '' @ errorType r, timestamp_e = now 5,
      status = S_completed, data = Workflow_data r\<rparr>"

text \<open>\<^verbatim>\<open>counts[key] = (counts[key] || 0) + 1\<close> (lines 80 to 84).\<close>

definition increment :: "('k \<times> nat) list \<Rightarrow> 'k \<Rightarrow> ('k \<times> nat) list" where
  "increment counts key =
     AList.update key ((case map_of counts key of None \<Rightarrow> 0 | Some n \<Rightarrow> n) + 1) counts"

text \<open>
  Lines 60 to 112, which run without interruption once the second timer has fired:
  the classification, the update of the store, the last two events and the success
  response.
\<close>

definition process :: "clock \<Rightarrow> string \<Rightarrow> string \<Rightarrow> world \<Rightarrow> response \<times> world" where
  "process now error eventId w =
     (let r = workflowResult now error;
          m = memory w;
          m = m\<lparr>totalErrors := totalErrors m + 1\<rparr>;
          m = m\<lparr>lastProcessed := Some (substring0 error 100)\<rparr>;
          m = m\<lparr>workflows := slice0 (workflowRecord now error eventId # workflows m) 10\<rparr>;
          m = m\<lparr>statistics := (statistics m)
                 \<lparr>errorTypes := increment (errorTypes (statistics m)) (errorType r)\<rparr>\<rparr>;
          m = m\<lparr>statistics := (statistics m)
                 \<lparr>severityCount := increment (severityCount (statistics m)) (severity r)\<rparr>\<rparr>;
          w = w\<lparr>memory := m\<rparr>;
          w = emit (memoryEvent now eventId (memory w)) w;
          w = emit (completedEvent now eventId r) w
      in (Success r (memory w), w))"

text \<open>
  \<^verbatim>\<open>POST\<close> (lines 16 to 117). The two timers (lines 32 and 58) only let time pass.
  An exception anywhere is caught at line 113 and answered with status 500: that is
  an unreadable body, and a truthy \<^verbatim>\<open>error\<close> that is not a string, whose
  \<^verbatim>\<open>trim\<close> is not a function.
\<close>

definition POST :: "clock \<Rightarrow> request \<Rightarrow> world \<Rightarrow> response \<times> world" where
  "POST now request w =
     (case request of
        Unreadable \<Rightarrow> (Failure ''Processing failed'' 500, w)
      | Body error eventId \<Rightarrow>
          (let w = emit (validationEvent now eventId) w;
               invalid = (Failure ''Invalid input'' 400, emit (errorEvent now eventId) w)
           in if \<not> truthy error then invalid
              else (case error of
                      JString text \<Rightarrow>
                        if length (trim text) = 0 then invalid
                        else process now text eventId (emit (workflowEvent now eventId) w)
                    | _ \<Rightarrow> (Failure ''Processing failed'' 500, w))))"

text \<open>
  A call is a request together with the clock readings of its run. \<open>serve\<close> runs
  the calls one after the other on the same state.
\<close>

type_synonym call = "clock \<times> request"

fun serve :: "call list \<Rightarrow> world \<Rightarrow> world" where
  "serve [] w = w"
| "serve ((now, request) # calls) w = serve calls (snd (POST now request w))"

text \<open>The events one run publishes: what it adds to the published sequence.\<close>

definition emitted :: "clock \<Rightarrow> request \<Rightarrow> world \<Rightarrow> RealtimeEvent list" where
  "emitted now request w = drop (length (published w)) (published (snd (POST now request w)))"

text \<open>The sum of all counts of a counter object.\<close>

definition sumCounts :: "('k \<times> nat) list \<Rightarrow> nat" where
  "sumCounts counts = sum_list (map snd counts)"

text \<open>
  The record a call leaves in \<^verbatim>\<open>workflows\<close>: none when the call is answered with a
  failure, otherwise the \<^verbatim>\<open>workflowRecord\<close> of line 71.
\<close>

fun completedRecord :: "call \<Rightarrow> WorkflowRecord list" where
  "completedRecord (now, Body (JString text) eventId) =
     (if length (trim text) = 0 then [] else [workflowRecord now text eventId])"
| "completedRecord (now, request) = []"

section \<open>Notions the properties are stated with\<close>

text \<open>A response is a success when it is the body of line 108.\<close>

fun succeeded :: "response \<Rightarrow> bool" where
  "succeeded (Success r m) = True"
| "succeeded (Failure msg code) = False"

text \<open>The kind and status of each event of a sequence, in order.\<close>

definition stages :: "RealtimeEvent list \<Rightarrow> (event_type \<times> event_status) list" where
  "stages events = map (\<lambda>e. (type_e e, status e)) events"

text \<open>
  The inputs the specification calls empty, missing or all-whitespace: the field
  \<^verbatim>\<open>error\<close> is absent, or it is a string with nothing but white space in it (the
  empty string among them).
\<close>

fun emptyInput :: "jsvalue \<Rightarrow> bool" where
  "emptyInput JUndefined = True"
| "emptyInput (JString s) = list_all isWhiteSpace s"
| "emptyInput error = False"

text \<open>
  An event id in the specification's words: the request identifier plus a stage
  suffix, that is, followed by something.
\<close>

definition suffixed :: "string \<Rightarrow> RealtimeEvent \<Rightarrow> bool" where
  "suffixed eventId e = (\<exists>suffix. suffix \<noteq> [] \<and> id_e e = eventId @ suffix)"

text \<open>
  The invariant of the store (section 3 of the specification): the total equals the
  sum of either counter object, and the history holds at most ten records.
\<close>

definition consistent :: "MemoryStore \<Rightarrow> bool" where
  "consistent m =
     (totalErrors m = sumCounts (errorTypes (statistics m))
      \<and> totalErrors m = sumCounts (severityCount (statistics m))
      \<and> length (workflows m) \<le> 10)"

text \<open>A clock for the examples: it has advanced by one at each reading.\<close>

definition tick :: clock where
  "tick k = 1000 + k"

section \<open>Requests in flight at the same time\<close>

text \<open>
  \<^verbatim>\<open>POST\<close> is an \<^verbatim>\<open>async\<close> function. JavaScript runs its code without interruption
  from one \<^verbatim>\<open>await\<close> to the next, and other requests can run only while it waits:
  for the body (line 18), for the first timer (line 32) and for the second (line 58).
  A request in flight is therefore at one of these stages: \<open>Received\<close>, its body
  not yet read; \<open>Validating\<close>, past the validation event and waiting for the first
  timer; \<open>Processing\<close>, past the workflow event and waiting for the second timer;
  \<open>Responded\<close>, finished with its response.
\<close>

datatype task =
  Received request
| Validating jsvalue string
| Processing string string
| Responded response

text \<open>
  \<open>advance\<close> runs a request from its stage to its next \<^verbatim>\<open>await\<close> or to its response:
  lines 18 to 32, then lines 35 to 58, then lines 60 to 112. The clock is read with the
  same numbers as in \<open>POST\<close>.
\<close>

fun advance :: "clock \<Rightarrow> task \<Rightarrow> world \<Rightarrow> task \<times> world" where
  "advance now (Received Unreadable) w = (Responded (Failure ''Processing failed'' 500), w)"
| "advance now (Received (Body error eventId)) w =
     (Validating error eventId, emit (validationEvent now eventId) w)"
| "advance now (Validating error eventId) w =
     (let invalid = (Responded (Failure ''Invalid input'' 400), emit (errorEvent now eventId) w)
      in if \<not> truthy error then invalid
         else (case error of
                 JString s \<Rightarrow>
                   if length (trim s) = 0 then invalid
                   else (Processing s eventId, emit (workflowEvent now eventId) w)
               | _ \<Rightarrow> (Responded (Failure ''Processing failed'' 500), w)))"
| "advance now (Processing s eventId) w =
     (Responded (fst (process now s eventId w)), snd (process now s eventId w))"
| "advance now (Responded r) w = (Responded r, w)"

fun finished :: "task \<Rightarrow> bool" where
  "finished (Responded r) = True"
| "finished t = False"

text \<open>A request has carried out its update of the store when it has responded with a success.\<close>

fun committed :: "task \<Rightarrow> bool" where
  "committed (Responded r) = succeeded r"
| "committed t = False"

text \<open>
  The state of the server: the shared state and the requests in flight. A schedule
  says which request resumes next and what its clock reads; an entry for a request
  that has finished, or for none, does nothing. Every interleaving of the requests
  is the run of some schedule.
\<close>

type_synonym system = "world \<times> task list"

fun run :: "(nat \<times> clock) list \<Rightarrow> system \<Rightarrow> system" where
  "run [] s = s"
| "run ((i, now) # schedule) (w, tasks) =
     (if i < length tasks \<and> \<not> finished (tasks ! i)
      then run schedule
             (snd (advance now (tasks ! i) w), tasks[i := fst (advance now (tasks ! i) w)])
      else run schedule (w, tasks))"

text \<open>The requests, of those in flight, that have carried out their update.\<close>

definition committedRequests :: "request list \<Rightarrow> task list \<Rightarrow> request list" where
  "committedRequests requests tasks =
     map fst (filter (\<lambda>(r, t). committed t) (zip requests tasks))"

text \<open>
  What links a task to the request it serves, for the proof: \<open>accepted\<close> requests
  are the ones validation lets through, and a task \<open>tracks\<close> a request when its
  stage carries that request's data, or its response is the kind the request gets.
\<close>

fun accepted :: "request \<Rightarrow> bool" where
  "accepted (Body (JString s) eventId) = (length (trim s) \<noteq> 0)"
| "accepted request = False"

fun tracks :: "request \<Rightarrow> task \<Rightarrow> bool" where
  "tracks r (Received r') = (r = r')"
| "tracks r (Validating error eventId) = (r = Body error eventId)"
| "tracks r (Processing s eventId) = (r = Body (JString s) eventId \<and> trim s \<noteq> [])"
| "tracks r (Responded resp) = (succeeded resp = accepted r)"

text \<open>
  The invariant of an interleaved run from \<open>w0\<close>: the store is the one that serving
  the committed requests one after the other, in some order, gives.
\<close>

definition serialised :: "world \<Rightarrow> request list \<Rightarrow> system \<Rightarrow> bool" where
  "serialised w0 requests s =
     (list_all2 tracks requests (snd s)
      \<and> (\<exists>hist. list_all (\<lambda>c. accepted (snd c)) hist
            \<and> mset (map snd hist) = mset (committedRequests requests (snd s))
            \<and> memory (fst s) = memory (serve hist w0)))"

section \<open>Evaluation\<close>

text \<open>The equations that evaluate the string functions and the classifier on a literal.\<close>

lemmas string_eval =
  toLowerCase_def toLowerChar_def char_of_eq_iff isWhiteSpace_def trim_def

lemmas classifier_eval =
  detectErrorType_def assessSeverity_def generateSuggestions_def string_eval

section \<open>The classifier meets the specification's rules\<close>

lemma startsWith_iff: "startsWith s kw = (\<exists>post. s = kw @ post)"
  by (induction s kw rule: startsWith.induct) auto

lemma str_includes_iff: "str_includes s kw = (\<exists>pre post. s = pre @ kw @ post)"
proof (induction s)
  case Nil
  then show ?case by (cases kw) auto
next
  case (Cons c cs)
  show ?case
  proof
    assume "str_includes (c # cs) kw"
    then consider "startsWith (c # cs) kw" | "str_includes cs kw" by auto
    then show "\<exists>pre post. c # cs = pre @ kw @ post"
    proof cases
      case 1
      then obtain post where "c # cs = kw @ post" by (auto simp: startsWith_iff)
      then have "c # cs = [] @ kw @ post" by simp
      then show ?thesis by blast
    next
      case 2
      with Cons obtain pre post where "cs = pre @ kw @ post" by auto
      then have "c # cs = (c # pre) @ kw @ post" by simp
      then show ?thesis by blast
    qed
  next
    assume "\<exists>pre post. c # cs = pre @ kw @ post"
    then obtain pre post where e: "c # cs = pre @ kw @ post" by blast
    show "str_includes (c # cs) kw"
    proof (cases pre)
      case Nil
      with e have "startsWith (c # cs) kw" by (auto simp: startsWith_iff)
      then show ?thesis by simp
    next
      case (Cons p ps)
      with e have "cs = ps @ kw @ post" by simp
      then have "str_includes cs kw" using Cons.IH by blast
      then show ?thesis by simp
    qed
  qed
qed

text \<open>Lower-casing a code unit gives a lower-case letter exactly for that letter and its capital.\<close>

lemma toLowerChar_sameLetter:
  assumes "lowerLetter k"
  shows "(toLowerChar c = k) = sameLetter k c"
proof -
  have b: "(of_char c :: nat) < 256" by simp
  have e: "\<And>n. (char_of (n::nat) = k) = (n mod 256 = of_char k)"
    by (metis char_of_char of_char_of)
  have e2: "\<And>n. (c = char_of (n::nat)) = (of_char c = n mod 256)"
    by (metis char_of_char of_char_of)
  have e3: "(c = k) = ((of_char c :: nat) = of_char k)" by auto
  show ?thesis
    using assms b
    unfolding toLowerChar_def sameLetter_def capitalOf_def lowerLetter_def Let_def e e2 e3
    by (auto simp: mod_if)
qed

lemma map_toLowerChar_sameLetter:
  "list_all lowerLetter kw \<Longrightarrow> (map toLowerChar mid = kw) = list_all2 sameLetter kw mid"
proof (induction kw arbitrary: mid)
  case Nil
  then show ?case by simp
next
  case (Cons k ks)
  then show ?case
    by (cases mid) (auto simp: toLowerChar_sameLetter)
qed

lemma map_split:
  "map f xs = a @ b \<Longrightarrow> \<exists>u v. xs = u @ v \<and> map f u = a \<and> map f v = b"
  by (auto simp: map_eq_append_conv)

lemma includes_toLowerCase:
  assumes "list_all lowerLetter kw"
  shows "str_includes (toLowerCase text) kw = occursIgnoringCase kw text"
proof
  assume "str_includes (toLowerCase text) kw"
  then obtain a b where "map toLowerChar text = a @ kw @ b"
    by (auto simp: str_includes_iff toLowerCase_def)
  then obtain pre r where 1: "text = pre @ r" "map toLowerChar r = kw @ b"
    using map_split by blast
  then obtain mid post where "r = mid @ post" "map toLowerChar mid = kw"
    using map_split by blast
  with 1 have "text = pre @ mid @ post" "map toLowerChar mid = kw" by simp_all
  then show "occursIgnoringCase kw text"
    using map_toLowerChar_sameLetter[OF assms] unfolding occursIgnoringCase_def by blast
next
  assume "occursIgnoringCase kw text"
  then obtain pre mid post where t: "text = pre @ mid @ post" and "list_all2 sameLetter kw mid"
    unfolding occursIgnoringCase_def by blast
  then have "map toLowerChar mid = kw" using map_toLowerChar_sameLetter[OF assms] by blast
  with t have "toLowerCase text = map toLowerChar pre @ kw @ map toLowerChar post"
    by (simp add: toLowerCase_def)
  then show "str_includes (toLowerCase text) kw"
    unfolding str_includes_iff by blast
qed

lemma keywords_lower:
  "list_all lowerLetter ''syntax''" "list_all lowerLetter ''type''"
  "list_all lowerLetter ''reference''" "list_all lowerLetter ''network''"
  "list_all lowerLetter ''timeout''" "list_all lowerLetter ''critical''"
  "list_all lowerLetter ''fatal''" "list_all lowerLetter ''error''"
  "list_all lowerLetter ''exception''" "list_all lowerLetter ''warning''"
  by (simp_all add: lowerLetter_def)

lemmas includes_keyword = keywords_lower [THEN includes_toLowerCase]

text \<open>
  C5. For every text, \<open>detectErrorType\<close> returns the error type of the first keyword,
  in the order syntax, type, reference, network, timeout, that occurs in the text
  ignoring case, and General Error when none of them occurs: it is the
  specification's rule \<open>spec_errorType\<close>.
\<close>

theorem detectErrorType_first_match: "detectErrorType text = spec_errorType text"
  unfolding detectErrorType_def spec_errorType_def Let_def includes_keyword by (rule refl)

text \<open>
  The theorem at a text with two keywords: the specification's rule gives the error
  type the code computes, the one of the keyword earlier in the order.
\<close>

theorem detectErrorType_first_match_witness:
  "spec_errorType ''TIMEOUT on Network'' = ''Network Error''"
proof -
  have "detectErrorType ''TIMEOUT on Network'' = ''Network Error''"
    by (simp add: classifier_eval)
  then show ?thesis
    using detectErrorType_first_match [of "''TIMEOUT on Network''"] by simp
qed

text \<open>
  C6. For every text, \<open>assessSeverity\<close> returns critical when critical or fatal occurs
  in the text ignoring case, otherwise high when error or exception occurs, otherwise
  medium when warning occurs, otherwise low (the specification's rule
  \<open>spec_severity\<close>); in particular a text with fatal or critical is critical whatever
  else it contains.
\<close>

theorem assessSeverity_priority:
  "assessSeverity text = spec_severity text
   \<and> (occursIgnoringCase ''critical'' text \<or> occursIgnoringCase ''fatal'' text
        \<longrightarrow> assessSeverity text = Critical)"
  unfolding assessSeverity_def spec_severity_def Let_def includes_keyword by simp

text \<open>The theorem at a text that holds fatal together with error and warning.\<close>

theorem assessSeverity_priority_witness:
  "occursIgnoringCase ''fatal'' ''Warning: FATAL error''
   \<and> occursIgnoringCase ''error'' ''Warning: FATAL error''
   \<and> occursIgnoringCase ''warning'' ''Warning: FATAL error''
   \<and> assessSeverity ''Warning: FATAL error'' = Critical
   \<and> spec_severity ''Warning: FATAL error'' = Critical"
proof -
  have h: "occursIgnoringCase ''fatal'' ''Warning: FATAL error''"
    "occursIgnoringCase ''error'' ''Warning: FATAL error''"
    "occursIgnoringCase ''warning'' ''Warning: FATAL error''"
    by (simp_all add: includes_keyword [symmetric] string_eval)
  show ?thesis
    using h assessSeverity_priority [of "''Warning: FATAL error''"] by auto
qed

text \<open>
  C7. For every text, \<open>generateSuggestions\<close> returns the two baseline suggestions,
  followed by the two syntax suggestions when syntax occurs in the text ignoring case,
  then the two network suggestions when network occurs, then the two timeout
  suggestions when timeout occurs, and nothing else (the specification's rule
  \<open>spec_suggestions\<close>).
\<close>

theorem generateSuggestions_append_order: "generateSuggestions text = spec_suggestions text"
  unfolding generateSuggestions_def spec_suggestions_def Let_def includes_keyword by simp

text \<open>The theorem at a text with timeout before syntax: the syntax pair still comes first.\<close>

theorem generateSuggestions_append_order_witness:
  "spec_suggestions ''Timeout after SYNTAX check'' =
     [''Review error logs for additional context'', ''Check recent code changes'',
      ''Validate code syntax'', ''Check for missing brackets or semicolons'',
      ''Increase timeout duration'', ''Optimize query performance'']"
proof -
  have "generateSuggestions ''Timeout after SYNTAX check'' =
     [''Review error logs for additional context'', ''Check recent code changes'',
      ''Validate code syntax'', ''Check for missing brackets or semicolons'',
      ''Increase timeout duration'', ''Optimize query performance'']"
    by (simp add: classifier_eval)
  then show ?thesis
    using generateSuggestions_append_order [of "''Timeout after SYNTAX check''"] by simp
qed

section \<open>One run of the route\<close>

lemmas route_eval =
  POST_def process_def emit_def validationEvent_def errorEvent_def workflowEvent_def
  workflowResult_def workflowRecord_def memoryEvent_def completedEvent_def increment_def
  substring0_def slice0_def start_def emitted_def stages_def Let_def

text \<open>Incrementing one counter adds one to the sum of all counts.\<close>

lemma sumCounts_increment: "sumCounts (increment counts key) = sumCounts counts + 1"
  unfolding sumCounts_def increment_def
  by (induction counts) (auto split: option.splits)

text \<open>The store, the events and the response that lines 60 to 112 leave.\<close>

lemma process_memory:
  "memory (snd (process now s eventId w)) =
     (memory w)\<lparr>totalErrors := totalErrors (memory w) + 1,
       lastProcessed := Some (take 100 s),
       workflows := take 10 (workflowRecord now s eventId # workflows (memory w)),
       statistics := (statistics (memory w))
         \<lparr>errorTypes := increment (errorTypes (statistics (memory w))) (detectErrorType s),
          severityCount := increment (severityCount (statistics (memory w))) (assessSeverity s)\<rparr>\<rparr>"
  by (simp add: process_def Let_def emit_def workflowResult_def substring0_def slice0_def)

lemma process_published:
  "published (snd (process now s eventId w)) =
     published w @ [memoryEvent now eventId (memory (snd (process now s eventId w))),
                    completedEvent now eventId (workflowResult now s)]"
  by (simp add: process_def Let_def emit_def workflowResult_def substring0_def slice0_def)

lemma process_response:
  "fst (process now s eventId w) =
     Success (workflowResult now s) (memory (snd (process now s eventId w)))"
  by (simp add: process_def Let_def emit_def)

text \<open>Trimming leaves nothing exactly when the string is white space throughout.\<close>

lemma trim_empty [simp]: "trim [] = []"
  by (simp add: trim_def)

lemma trim_blank: "list_all isWhiteSpace s \<Longrightarrow> trim s = []"
  by (auto simp: trim_def list_all_iff dest: set_dropWhileD)

lemma trim_blank_iff: "(trim s = []) = list_all isWhiteSpace s"
proof
  assume t: "trim s = []"
  show "list_all isWhiteSpace s"
  proof (cases "dropWhile isWhiteSpace s = []")
    case True
    then show ?thesis by (simp add: list_all_iff)
  next
    case False
    then have "\<not> isWhiteSpace (hd (dropWhile isWhiteSpace s))"
      by (rule hd_dropWhile)
    moreover have "\<forall>x \<in> set (dropWhile isWhiteSpace s). isWhiteSpace x"
      using t by (simp add: trim_def)
    ultimately show ?thesis using False by (meson hd_in_set)
  qed
qed (rule trim_blank)

text \<open>The branches of \<open>POST\<close>, one lemma each.\<close>

lemma POST_Unreadable: "POST now Unreadable w = (Failure ''Processing failed'' 500, w)"
  by (simp add: POST_def)

lemma POST_falsy:
  "\<not> truthy error \<Longrightarrow>
   POST now (Body error eventId) w =
     (Failure ''Invalid input'' 400,
      w\<lparr>published := published w @ [validationEvent now eventId, errorEvent now eventId]\<rparr>)"
  by (simp add: POST_def Let_def emit_def)

lemma POST_blank:
  "trim s = [] \<Longrightarrow>
   POST now (Body (JString s) eventId) w =
     (Failure ''Invalid input'' 400,
      w\<lparr>published := published w @ [validationEvent now eventId, errorEvent now eventId]\<rparr>)"
  by (simp add: POST_def Let_def emit_def)

lemma POST_invalid:
  assumes "\<not> truthy error \<or> (\<exists>s. error = JString s \<and> trim s = [])"
  shows "POST now (Body error eventId) w =
     (Failure ''Invalid input'' 400,
      w\<lparr>published := published w @ [validationEvent now eventId, errorEvent now eventId]\<rparr>)"
  using assms by (auto simp: POST_falsy POST_blank)

lemma POST_text:
  "trim s \<noteq> [] \<Longrightarrow>
   POST now (Body (JString s) eventId) w =
     process now s eventId
       (w\<lparr>published := published w @ [validationEvent now eventId, workflowEvent now eventId]\<rparr>)"
proof -
  assume a: "trim s \<noteq> []"
  then have "s \<noteq> []" by (auto simp: trim_def)
  with a show ?thesis by (simp add: POST_def Let_def emit_def)
qed

lemma POST_not_string:
  "truthy error \<Longrightarrow> \<forall>s. error \<noteq> JString s \<Longrightarrow>
   POST now (Body error eventId) w =
     (Failure ''Processing failed'' 500,
      w\<lparr>published := published w @ [validationEvent now eventId]\<rparr>)"
  by (cases error) (simp_all add: POST_def Let_def emit_def)

lemma completedRecord_other:
  "\<not> truthy error \<or> (\<exists>s. error = JString s \<and> trim s = []) \<or> (\<forall>s. error \<noteq> JString s)
   \<Longrightarrow> completedRecord (now, Body error eventId) = []"
  by (cases error) auto

lemma request_cases:
  "request = Unreadable
   \<or> (\<exists>error eventId. request = Body error eventId
         \<and> (\<not> truthy error \<or> (\<exists>s. error = JString s \<and> trim s = [])))
   \<or> (\<exists>error eventId. request = Body error eventId
         \<and> truthy error \<and> (\<forall>s. error \<noteq> JString s))
   \<or> (\<exists>s eventId. request = Body (JString s) eventId \<and> trim s \<noteq> [])"
proof (cases request)
  case Unreadable
  then show ?thesis by simp
next
  case (Body error eventId)
  then show ?thesis by (cases error) auto
qed

text \<open>
  Every run goes one of four ways: the body cannot be read; the input is invalid; the
  input is truthy and not a string, so that \<^verbatim>\<open>trim\<close> throws; or the input is a string
  with something in it, which is processed.
\<close>

lemma run_cases:
  "(request = Unreadable
      \<and> POST now request w = (Failure ''Processing failed'' 500, w)
      \<and> completedRecord (now, request) = [])
   \<or> (\<exists>error eventId. request = Body error eventId
         \<and> (\<not> truthy error \<or> (\<exists>s. error = JString s \<and> trim s = []))
         \<and> POST now request w =
             (Failure ''Invalid input'' 400,
              w\<lparr>published := published w @ [validationEvent now eventId, errorEvent now eventId]\<rparr>)
         \<and> completedRecord (now, request) = [])
   \<or> (\<exists>error eventId. request = Body error eventId
         \<and> truthy error \<and> (\<forall>s. error \<noteq> JString s)
         \<and> POST now request w =
             (Failure ''Processing failed'' 500,
              w\<lparr>published := published w @ [validationEvent now eventId]\<rparr>)
         \<and> completedRecord (now, request) = [])
   \<or> (\<exists>s eventId. request = Body (JString s) eventId \<and> trim s \<noteq> []
         \<and> POST now request w =
             process now s eventId
               (w\<lparr>published := published w @ [validationEvent now eventId, workflowEvent now eventId]\<rparr>)
         \<and> completedRecord (now, request) = [workflowRecord now s eventId])"
  using request_cases [of request]
  by (auto simp: POST_Unreadable POST_invalid POST_not_string POST_text completedRecord_other)

text \<open>A run only adds to the published events, and what it adds is \<open>emitted\<close>.\<close>

lemma POST_published:
  "published (snd (POST now request w)) = published w @ emitted now request w"
  using run_cases [of request now w]
  by (auto simp: emitted_def process_published)

text \<open>
  \<open>completedRecord\<close> agrees with the route: a call has a record exactly when its
  response is a success, and a call without one leaves the store as it was.
\<close>

lemma POST_succeeded:
  "succeeded (fst (POST now request w)) = (completedRecord (now, request) \<noteq> [])"
  using run_cases [of request now w]
  by (auto simp: process_response)

lemma POST_success_record:
  assumes "fst (POST now request w) = Success r m"
  shows "\<exists>rec. completedRecord (now, request) = [rec] \<and> result rec = r
           \<and> memory (snd (POST now request w)) = m
           \<and> workflows m = take 10 (rec # workflows (memory w))"
  using assms run_cases [of request now w]
  by (auto simp: process_response process_memory workflowRecord_def)

lemma POST_memory_failure:
  "completedRecord (now, request) = [] \<Longrightarrow> memory (snd (POST now request w)) = memory w"
  using run_cases [of request now w] by auto

lemma POST_workflows_bounded:
  "length (workflows (memory w)) \<le> 10 \<Longrightarrow>
   workflows (memory (snd (POST now request w))) =
     take 10 (completedRecord (now, request) @ workflows (memory w))"
  using run_cases [of request now w]
  by (auto simp: process_memory)

text \<open>What happens to the store depends on the store alone, not on the published events.\<close>

lemma POST_memory_cong:
  "memory w = memory w' \<Longrightarrow> memory (snd (POST now r w)) = memory (snd (POST now r w'))"
  using run_cases [of r now w] run_cases [of r now w']
  by (auto simp: process_memory)

section \<open>The invariant of the store\<close>

lemma consistent_start: "consistent (memory start)"
  by (simp add: consistent_def start_def sumCounts_def)

lemma consistent_process:
  "consistent (memory w) \<Longrightarrow> consistent (memory (snd (process now s eventId w)))"
  by (simp add: consistent_def process_memory sumCounts_increment)

lemma consistent_POST:
  "consistent (memory w) \<Longrightarrow> consistent (memory (snd (POST now request w)))"
  using run_cases [of request now w]
  by (auto simp: consistent_process)

lemma consistent_serve:
  "consistent (memory w) \<Longrightarrow> consistent (memory (serve calls w))"
  by (induction calls arbitrary: w) (auto simp: consistent_POST)

text \<open>
  C1. Starting from the initial empty store, after every sequence of requests served
  (those answered with a success change the store, the others leave it alone),
  \<open>totalErrors\<close> equals the sum of all counts in \<open>errorTypes\<close> and the sum of all
  counts in \<open>severityCount\<close>.
\<close>

theorem store_counts_agree:
  "totalErrors (memory (serve calls start)) =
     sumCounts (errorTypes (statistics (memory (serve calls start))))
   \<and> totalErrors (memory (serve calls start)) =
     sumCounts (severityCount (statistics (memory (serve calls start))))"
  using consistent_serve [OF consistent_start, of calls] by (simp add: consistent_def)

text \<open>
  The theorem after three calls, the second of them invalid: the total is 2, and so
  are both sums.
\<close>

theorem store_counts_agree_witness:
  "sumCounts (errorTypes (statistics (memory (serve
      [(tick, Body (JString ''Fatal network error'') ''evt_1''),
       (tick, Body (JString ''   '') ''evt_2''),
       (tick, Body (JString ''type warning'') ''evt_3'')] start)))) = 2
   \<and> sumCounts (severityCount (statistics (memory (serve
      [(tick, Body (JString ''Fatal network error'') ''evt_1''),
       (tick, Body (JString ''   '') ''evt_2''),
       (tick, Body (JString ''type warning'') ''evt_3'')] start)))) = 2"
proof -
  have "totalErrors (memory (serve
      [(tick, Body (JString ''Fatal network error'') ''evt_1''),
       (tick, Body (JString ''   '') ''evt_2''),
       (tick, Body (JString ''type warning'') ''evt_3'')] start)) = 2"
    by (simp add: route_eval classifier_eval)
  then show ?thesis
    using store_counts_agree [of "[(tick, Body (JString ''Fatal network error'') ''evt_1''),
       (tick, Body (JString ''   '') ''evt_2''),
       (tick, Body (JString ''type warning'') ''evt_3'')]"] by simp
qed

section \<open>The history of recent records\<close>

lemma take_append_take: "take n (xs @ take n ys) = take n (xs @ ys)"
  by (simp add: min_def)

lemma rev_completedRecord: "rev (completedRecord c) = completedRecord c"
  by (cases c rule: completedRecord.cases) auto

lemma serve_workflows:
  "consistent (memory w) \<Longrightarrow>
   workflows (memory (serve calls w)) =
     take 10 (rev (concat (map completedRecord calls)) @ workflows (memory w))"
proof (induction calls arbitrary: w)
  case Nil
  then show ?case by (simp add: consistent_def)
next
  case (Cons c calls)
  obtain now request where c: "c = (now, request)" by (cases c)
  let ?w = "snd (POST now request w)"
  have "consistent (memory ?w)" using Cons.prems by (rule consistent_POST)
  then have "workflows (memory (serve calls ?w)) =
      take 10 (rev (concat (map completedRecord calls)) @ workflows (memory ?w))"
    by (rule Cons.IH)
  also have "workflows (memory ?w) = take 10 (completedRecord c @ workflows (memory w))"
    using Cons.prems by (simp add: c consistent_def POST_workflows_bounded)
  also have "take 10 (rev (concat (map completedRecord calls))
                  @ take 10 (completedRecord c @ workflows (memory w))) =
             take 10 (rev (concat (map completedRecord calls))
                  @ completedRecord c @ workflows (memory w))"
    by (rule take_append_take)
  also have "rev (concat (map completedRecord calls)) @ completedRecord c @ workflows (memory w) =
             rev (concat (map completedRecord (c # calls))) @ workflows (memory w)"
    by (simp add: rev_completedRecord)
  finally show ?case by (simp add: c)
qed

text \<open>
  C2. For every sequence of requests served from the initial empty store, the
  \<open>workflows\<close> list has at most 10 entries, and it is the first ten of the records of
  the completed requests, read from the newest to the oldest: newest first, and a
  record leaves when ten newer ones are in.
\<close>

theorem workflows_newest_ten:
  "length (workflows (memory (serve calls start))) \<le> 10
   \<and> workflows (memory (serve calls start)) = take 10 (rev (concat (map completedRecord calls)))"
  using consistent_serve [OF consistent_start, of calls]
    serve_workflows [OF consistent_start, of calls]
  by (simp add: consistent_def start_def)

lemma completedRecord_sample:
  "completedRecord (tick, Body (JString ''boom'') eventId) = [workflowRecord tick ''boom'' eventId]"
  "completedRecord (tick, Body (JString []) eventId) = []"
  by (simp_all add: string_eval)

text \<open>
  The theorem after twelve calls, eleven of them completed: the ten newest records
  are there, newest first, and the record of the first call is gone.
\<close>

theorem workflows_newest_ten_witness:
  "map id_r (workflows (memory (serve
      [(tick, Body (JString ''boom'') ''a''), (tick, Body (JString ''boom'') ''b''),
       (tick, Body (JString ''boom'') ''c''), (tick, Body (JString ''boom'') ''d''),
       (tick, Body (JString ''boom'') ''e''), (tick, Body (JString ''boom'') ''f''),
       (tick, Body (JString ''boom'') ''g''), (tick, Body (JString []) ''blank''),
       (tick, Body (JString ''boom'') ''h''),
       (tick, Body (JString ''boom'') ''i''), (tick, Body (JString ''boom'') ''j''),
       (tick, Body (JString ''boom'') ''k'')] start))) =
     [''k'', ''j'', ''i'', ''h'', ''g'', ''f'', ''e'', ''d'', ''c'', ''b'']"
  using workflows_newest_ten
    [of "[(tick, Body (JString ''boom'') ''a''), (tick, Body (JString ''boom'') ''b''),
       (tick, Body (JString ''boom'') ''c''), (tick, Body (JString ''boom'') ''d''),
       (tick, Body (JString ''boom'') ''e''), (tick, Body (JString ''boom'') ''f''),
       (tick, Body (JString ''boom'') ''g''), (tick, Body (JString []) ''blank''),
       (tick, Body (JString ''boom'') ''h''),
       (tick, Body (JString ''boom'') ''i''), (tick, Body (JString ''boom'') ''j''),
       (tick, Body (JString ''boom'') ''k'')]"]
  by (simp add: completedRecord_sample workflowRecord_def del: completedRecord.simps)

section \<open>Invalid input and the order of events\<close>

text \<open>
  C3. For every request whose \<^verbatim>\<open>error\<close> is missing, empty or white space throughout:
  the response is the failure Invalid input with status 400; no field of the store
  changes; the run publishes the validation event and then the validation event with
  status error, and nothing after it.
\<close>

theorem empty_input_rejected:
  assumes "emptyInput error"
  shows "fst (POST now (Body error eventId) w) = Failure ''Invalid input'' 400
    \<and> memory (snd (POST now (Body error eventId) w)) = memory w
    \<and> emitted now (Body error eventId) w = [validationEvent now eventId, errorEvent now eventId]
    \<and> published (snd (POST now (Body error eventId) w)) =
        published w @ [validationEvent now eventId, errorEvent now eventId]
    \<and> stages (emitted now (Body error eventId) w) =
        [(T_validation, S_processing), (T_validation, S_error)]"
proof -
  have "\<not> truthy error \<or> (\<exists>s. error = JString s \<and> trim s = [])"
    using assms by (cases error) (auto simp: trim_blank)
  then have "POST now (Body error eventId) w =
     (Failure ''Invalid input'' 400,
      w\<lparr>published := published w @ [validationEvent now eventId, errorEvent now eventId]\<rparr>)"
    by (rule POST_invalid)
  then show ?thesis
    by (simp add: emitted_def stages_def validationEvent_def errorEvent_def)
qed

text \<open>The theorem at a string of three spaces and at a body without the field.\<close>

theorem empty_input_rejected_witness:
  "emptyInput (JString ''   '')
   \<and> fst (POST tick (Body (JString ''   '') ''evt_1'') start) = Failure ''Invalid input'' 400
   \<and> memory (snd (POST tick (Body (JString ''   '') ''evt_1'') start)) = memory start
   \<and> stages (emitted tick (Body (JString ''   '') ''evt_1'') start) =
        [(T_validation, S_processing), (T_validation, S_error)]
   \<and> emptyInput JUndefined
   \<and> fst (POST tick (Body JUndefined ''evt_2'') start) = Failure ''Invalid input'' 400
   \<and> memory (snd (POST tick (Body JUndefined ''evt_2'') start)) = memory start"
proof -
  have h: "emptyInput (JString ''   '')" by (simp add: isWhiteSpace_def)
  have u: "emptyInput JUndefined" by simp
  show ?thesis
    using h u empty_input_rejected [OF h, of tick "''evt_1''" start]
      empty_input_rejected [OF u, of tick "''evt_2''" start]
    by blast
qed

text \<open>
  C4. For every run: when the response is a success, the events of the run are, in
  this order, a validation event (processing), a workflow event (processing), a
  memory_update event (completed) and a completed event (completed); when the response
  is the failure for invalid input, they are a validation event (processing) and a
  validation event with status error, and no workflow, memory_update or completed
  event; and the run publishes these events after the ones already published.
\<close>

theorem event_order:
  "(succeeded (fst (POST now request w)) \<longrightarrow>
      stages (emitted now request w) =
        [(T_validation, S_processing), (T_workflow, S_processing),
         (T_memory_update, S_completed), (T_completed, S_completed)])
   \<and> (fst (POST now request w) = Failure ''Invalid input'' 400 \<longrightarrow>
      stages (emitted now request w) = [(T_validation, S_processing), (T_validation, S_error)])
   \<and> published (snd (POST now request w)) = published w @ emitted now request w"
  using run_cases [of request now w]
  by (auto simp: emitted_def stages_def process_published process_response
        validationEvent_def errorEvent_def workflowEvent_def memoryEvent_def completedEvent_def)

text \<open>The theorem at a request that succeeds and at one whose \<^verbatim>\<open>error\<close> is \<^verbatim>\<open>null\<close>.\<close>

theorem event_order_witness:
  "succeeded (fst (POST tick (Body (JString ''Fatal network error'') ''evt_1'') start))
   \<and> stages (emitted tick (Body (JString ''Fatal network error'') ''evt_1'') start) =
        [(T_validation, S_processing), (T_workflow, S_processing),
         (T_memory_update, S_completed), (T_completed, S_completed)]
   \<and> fst (POST tick (Body JNull ''evt_2'') start) = Failure ''Invalid input'' 400
   \<and> stages (emitted tick (Body JNull ''evt_2'') start) =
        [(T_validation, S_processing), (T_validation, S_error)]"
proof -
  have a: "succeeded (fst (POST tick (Body (JString ''Fatal network error'') ''evt_1'') start))"
    by (simp add: POST_succeeded string_eval)
  have b: "fst (POST tick (Body JNull ''evt_2'') start) = Failure ''Invalid input'' 400"
    by (simp add: POST_def Let_def)
  show ?thesis
    using a b event_order [of tick "Body (JString ''Fatal network error'') ''evt_1''" start]
      event_order [of tick "Body JNull ''evt_2''" start]
    by simp
qed

section \<open>Event ids\<close>

text \<open>
  Read as the specification words it, every event id would be the request identifier
  followed by a stage suffix. The completed event has no suffix: for the request
  identifier \<open>evt_1\<close>, the last event of a successful run is the completed event, and
  its id is \<open>evt_1\<close> itself.
\<close>

theorem completed_event_id_not_suffixed:
  "id_e (last (emitted tick (Body (JString ''boom'') ''evt_1'') start)) = ''evt_1''
   \<and> type_e (last (emitted tick (Body (JString ''boom'') ''evt_1'') start)) = T_completed
   \<and> \<not> suffixed ''evt_1'' (last (emitted tick (Body (JString ''boom'') ''evt_1'') start))
   \<and> \<not> list_all (suffixed ''evt_1'') (emitted tick (Body (JString ''boom'') ''evt_1'') start)"
  by (simp add: route_eval string_eval suffixed_def)

text \<open>
  C8, amended. For every request with identifier \<open>eventId\<close>, the ids of the events of
  its run are, in order: \<open>eventId_validation\<close>, \<open>eventId_workflow\<close>, \<open>eventId_memory\<close>
  and, for the completed event, \<open>eventId\<close> itself, when the response is a success;
  \<open>eventId_validation\<close> and \<open>eventId_error\<close> when the input is invalid; and
  \<open>eventId_validation\<close> alone when the run fails otherwise. Within one request the
  ids are distinct.
\<close>

theorem event_ids:
  "map id_e (emitted now (Body error eventId) w) =
     (if succeeded (fst (POST now (Body error eventId) w))
      then [eventId @ ''_validation'', eventId @ ''_workflow'', eventId @ ''_memory'', eventId]
      else if fst (POST now (Body error eventId) w) = Failure ''Invalid input'' 400
      then [eventId @ ''_validation'', eventId @ ''_error'']
      else [eventId @ ''_validation''])
   \<and> distinct (map id_e (emitted now (Body error eventId) w))"
  using run_cases [of "Body error eventId" now w]
  by (auto simp: emitted_def process_published process_response
        validationEvent_def errorEvent_def workflowEvent_def memoryEvent_def completedEvent_def)

text \<open>The theorem at a request that succeeds.\<close>

theorem event_ids_witness:
  "map id_e (emitted tick (Body (JString ''boom'') ''evt_1'') start) =
     [''evt_1_validation'', ''evt_1_workflow'', ''evt_1_memory'', ''evt_1'']
   \<and> distinct (map id_e (emitted tick (Body (JString ''boom'') ''evt_1'') start))"
proof -
  have a: "succeeded (fst (POST tick (Body (JString ''boom'') ''evt_1'') start))"
    by (simp add: POST_succeeded string_eval)
  show ?thesis
    using a event_ids [of tick "JString ''boom''" "''evt_1''" start] by simp
qed

section \<open>Requests that share an identifier\<close>

text \<open>
  C10. Requests are not deduplicated by their identifier. For every two requests with
  the same \<open>eventId\<close> that are served one after the other and both answered with a
  success: \<open>totalErrors\<close> grows by two; the history gains the records of both, the
  second before the first; both records carry \<open>eventId\<close> as their id; so the ids of
  the records in the store are not distinct.
\<close>

theorem shared_eventId_not_deduplicated:
  assumes "succeeded (fst (POST now1 (Body error1 eventId) w))"
    and "succeeded (fst (POST now2 (Body error2 eventId) (snd (POST now1 (Body error1 eventId) w))))"
  shows "totalErrors (memory (serve [(now1, Body error1 eventId), (now2, Body error2 eventId)] w)) =
        totalErrors (memory w) + 2
    \<and> workflows (memory (serve [(now1, Body error1 eventId), (now2, Body error2 eventId)] w)) =
        take 10 (completedRecord (now2, Body error2 eventId)
                 @ completedRecord (now1, Body error1 eventId) @ workflows (memory w))
    \<and> map id_r (completedRecord (now1, Body error1 eventId)) = [eventId]
    \<and> map id_r (completedRecord (now2, Body error2 eventId)) = [eventId]
    \<and> \<not> distinct (map id_r (workflows (memory
          (serve [(now1, Body error1 eventId), (now2, Body error2 eventId)] w))))"
proof -
  let ?w1 = "snd (POST now1 (Body error1 eventId) w)"
  obtain s1 where 1: "error1 = JString s1" "trim s1 \<noteq> []"
    and p1: "POST now1 (Body error1 eventId) w = process now1 s1 eventId
       (w\<lparr>published := published w @ [validationEvent now1 eventId, workflowEvent now1 eventId]\<rparr>)"
    using assms(1) run_cases [of "Body error1 eventId" now1 w] by auto
  obtain s2 where 2: "error2 = JString s2" "trim s2 \<noteq> []"
    and p2: "POST now2 (Body error2 eventId) ?w1 = process now2 s2 eventId
       (?w1\<lparr>published := published ?w1 @ [validationEvent now2 eventId, workflowEvent now2 eventId]\<rparr>)"
    using assms(2) run_cases [of "Body error2 eventId" now2 ?w1] by auto
  let ?r1 = "workflowRecord now1 s1 eventId" and ?r2 = "workflowRecord now2 s2 eventId"
  have m1: "workflows (memory ?w1) = take 10 (?r1 # workflows (memory w))"
    "totalErrors (memory ?w1) = totalErrors (memory w) + 1"
    by (simp_all add: p1 process_memory)
  have m2: "workflows (memory (snd (POST now2 (Body error2 eventId) ?w1))) =
      take 10 (?r2 # workflows (memory ?w1))"
    "totalErrors (memory (snd (POST now2 (Body error2 eventId) ?w1))) = totalErrors (memory ?w1) + 1"
    by (simp_all add: p2 process_memory)
  have w: "workflows (memory (serve [(now1, Body error1 eventId), (now2, Body error2 eventId)] w)) =
        take 10 (?r2 # ?r1 # workflows (memory w))"
    by (simp add: m1 m2 take_Cons')
  have t: "totalErrors (memory (serve [(now1, Body error1 eventId), (now2, Body error2 eventId)] w)) =
        totalErrors (memory w) + 2"
    by (simp add: m1 m2)
  have i: "id_r ?r1 = eventId" "id_r ?r2 = eventId" by (simp_all add: workflowRecord_def)
  have d: "\<not> distinct (map id_r (take 10 (?r2 # ?r1 # workflows (memory w))))"
    by (simp add: take_Cons' i)
  have c: "completedRecord (now1, Body error1 eventId) = [?r1]"
    "completedRecord (now2, Body error2 eventId) = [?r2]"
    using 1 2 by simp_all
  show ?thesis using w t i d c by simp
qed

text \<open>The theorem at two requests with the identifier \<open>evt_1\<close>, served from the empty store.\<close>

theorem shared_eventId_not_deduplicated_witness:
  "succeeded (fst (POST tick (Body (JString ''type warning'') ''evt_1'') start))
   \<and> succeeded (fst (POST tick (Body (JString ''Fatal network error'') ''evt_1'')
        (snd (POST tick (Body (JString ''type warning'') ''evt_1'') start))))
   \<and> totalErrors (memory (serve [(tick, Body (JString ''type warning'') ''evt_1''),
        (tick, Body (JString ''Fatal network error'') ''evt_1'')] start)) = 2
   \<and> map id_r (workflows (memory (serve [(tick, Body (JString ''type warning'') ''evt_1''),
        (tick, Body (JString ''Fatal network error'') ''evt_1'')] start))) = [''evt_1'', ''evt_1'']"
proof -
  have a: "succeeded (fst (POST tick (Body (JString ''type warning'') ''evt_1'') start))"
    by (simp add: POST_succeeded string_eval)
  have b: "succeeded (fst (POST tick (Body (JString ''Fatal network error'') ''evt_1'')
        (snd (POST tick (Body (JString ''type warning'') ''evt_1'') start))))"
    by (simp add: POST_succeeded string_eval)
  have s: "totalErrors (memory start) = 0" "workflows (memory start) = []"
    by (simp_all add: start_def)
  have l: "\<And>xs ys :: WorkflowRecord list.
      map id_r xs = [''evt_1''] \<Longrightarrow> map id_r ys = [''evt_1''] \<Longrightarrow>
      map id_r (take 10 (xs @ ys @ [])) = [''evt_1'', ''evt_1'']"
    by auto
  show ?thesis
    using a b s l shared_eventId_not_deduplicated [OF a b] by simp
qed

section \<open>Interleaved requests\<close>

text \<open>
  The stages of \<open>advance\<close> are the route: three of them in a row, with the same clock,
  do what \<open>POST\<close> does.
\<close>

lemma POST_advance:
  "advance now (fst (advance now (fst (advance now (Received request) w))
                               (snd (advance now (Received request) w))))
               (snd (advance now (fst (advance now (Received request) w))
                               (snd (advance now (Received request) w))))
   = (Responded (fst (POST now request w)), snd (POST now request w))"
proof (cases request)
  case Unreadable
  then show ?thesis by (simp add: POST_def)
next
  case (Body error eventId)
  then show ?thesis
    by (cases error) (auto simp: POST_def Let_def)
qed

text \<open>
  A stage keeps its task on its request, and it changes the store only when the task
  becomes committed: then the store changes as under a whole run of \<open>POST\<close>.
\<close>

lemma advance_effect:
  assumes "tracks r t" "\<not> finished t"
  shows "tracks r (fst (advance now t w)) \<and> \<not> committed t
     \<and> (if committed (fst (advance now t w))
        then accepted r \<and> memory (snd (advance now t w)) = memory (snd (POST now r w))
        else memory (snd (advance now t w)) = memory w)"
proof (cases t)
  case (Received r')
  with assms show ?thesis by (cases r') (auto simp: emit_def)
next
  case (Validating error eventId)
  with assms show ?thesis
    by (cases error) (auto simp: emit_def Let_def)
next
  case (Processing s eventId)
  with assms show ?thesis
    by (auto simp: process_response POST_text process_memory)
next
  case (Responded resp)
  with assms show ?thesis by simp
qed

lemma committedRequests_update:
  "length rs = length ts \<Longrightarrow> i < length ts \<Longrightarrow> \<not> committed (ts ! i) \<Longrightarrow>
   mset (committedRequests rs (ts[i := t'])) =
     (if committed t' then add_mset (rs ! i) (mset (committedRequests rs ts))
      else mset (committedRequests rs ts))"
proof (induction rs ts arbitrary: i rule: list_induct2)
  case Nil
  then show ?case by simp
next
  case (Cons r rs t ts)
  then show ?case
    by (cases i) (auto simp: committedRequests_def)
qed

lemma length_committedRequests:
  "length rs = length ts \<Longrightarrow> length (committedRequests rs ts) = length (filter committed ts)"
  by (induction rs ts rule: list_induct2) (auto simp: committedRequests_def)

lemma tracks_update:
  "list_all2 tracks rs ts \<Longrightarrow> i < length ts \<Longrightarrow> tracks (rs ! i) t' \<Longrightarrow>
   list_all2 tracks rs (ts[i := t'])"
  by (simp add: list_all2_conv_all_nth nth_list_update)

lemma serve_append: "serve (xs @ ys) w = serve ys (serve xs w)"
  by (induction xs arbitrary: w) auto

text \<open>Every stage of every request keeps the invariant: a commit extends the serial order.\<close>

lemma serialised_advance:
  assumes s: "serialised w0 requests (w, tasks)"
    and i: "i < length tasks" and nf: "\<not> finished (tasks ! i)"
  shows "serialised w0 requests
           (snd (advance now (tasks ! i) w), tasks[i := fst (advance now (tasks ! i) w)])"
proof -
  let ?t' = "fst (advance now (tasks ! i) w)" and ?w' = "snd (advance now (tasks ! i) w)"
  from s have tr: "list_all2 tracks requests tasks" by (simp add: serialised_def)
  then have len: "length requests = length tasks" by (rule list_all2_lengthD)
  from tr i have "tracks (requests ! i) (tasks ! i)" by (simp add: list_all2_conv_all_nth)
  from advance_effect [OF this nf, of now w]
  have t': "tracks (requests ! i) ?t'" and nc: "\<not> committed (tasks ! i)"
    and eff: "if committed ?t'
        then accepted (requests ! i) \<and> memory ?w' = memory (snd (POST now (requests ! i) w))
        else memory ?w' = memory w"
    by blast+
  have tr': "list_all2 tracks requests (tasks[i := ?t'])"
    using tr i t' by (rule tracks_update)
  from s obtain hist where d: "list_all (\<lambda>c. accepted (snd c)) hist"
    "mset (map snd hist) = mset (committedRequests requests tasks)"
    "memory w = memory (serve hist w0)"
    by (auto simp: serialised_def)
  show ?thesis
  proof (cases "committed ?t'")
    case False
    with eff d committedRequests_update [OF len i nc, of ?t'] tr'
    show ?thesis unfolding serialised_def by auto
  next
    case True
    let ?hist = "hist @ [(now, requests ! i)]"
    from True eff have a: "accepted (requests ! i)"
      and m: "memory ?w' = memory (snd (POST now (requests ! i) w))" by simp_all
    have "memory (snd (POST now (requests ! i) w)) =
          memory (snd (POST now (requests ! i) (serve hist w0)))"
      using d(3) by (rule POST_memory_cong)
    with m have 1: "memory ?w' = memory (serve ?hist w0)" by (simp add: serve_append)
    have 2: "list_all (\<lambda>c. accepted (snd c)) ?hist" using d(1) a by simp
    have 3: "mset (map snd ?hist) = mset (committedRequests requests (tasks[i := ?t']))"
      using d(2) True committedRequests_update [OF len i nc, of ?t'] by simp
    from tr' 1 2 3 show ?thesis unfolding serialised_def
      by (simp only: fst_conv snd_conv) blast
  qed
qed

lemma serialised_run:
  "serialised w0 requests s \<Longrightarrow> serialised w0 requests (run schedule s)"
proof (induction schedule arbitrary: s)
  case Nil
  then show ?case by simp
next
  case (Cons a schedule)
  obtain i now where a: "a = (i, now)" by (cases a)
  obtain w tasks where s: "s = (w, tasks)" by (cases s)
  show ?case
  proof (cases "i < length tasks \<and> \<not> finished (tasks ! i)")
    case True
    then have "serialised w0 requests
           (snd (advance now (tasks ! i) w), tasks[i := fst (advance now (tasks ! i) w)])"
      using Cons.prems s by (auto intro: serialised_advance)
    then show ?thesis using True a s Cons.IH by simp
  next
    case False
    then show ?thesis using a s Cons by auto
  qed
qed

lemma serialised_initial: "serialised w0 requests (w0, map Received requests)"
proof -
  have "list_all2 tracks requests (map Received requests)"
    by (simp add: list_all2_conv_all_nth)
  moreover have "committedRequests requests (map Received requests) = []"
    by (induction requests) (auto simp: committedRequests_def)
  ultimately show ?thesis
    unfolding serialised_def by (auto intro: exI [of _ "[]"])
qed

text \<open>Serving calls one after the other counts each accepted one once, in the total and in both sums.\<close>

lemma length_concat_completedRecord:
  "list_all (\<lambda>c. accepted (snd c)) calls \<Longrightarrow> length (concat (map completedRecord calls)) = length calls"
proof (induction calls)
  case Nil
  then show ?case by simp
next
  case (Cons c calls)
  obtain now r where c: "c = (now, r)" by (cases c)
  with Cons.prems have "accepted r" by simp
  then have "length (completedRecord (now, r)) = 1"
    by (cases "(now, r)" rule: completedRecord.cases) auto
  with Cons c show ?case by simp
qed

lemma serve_totalErrors:
  "totalErrors (memory (serve calls w)) =
     totalErrors (memory w) + length (concat (map completedRecord calls))"
proof (induction calls arbitrary: w)
  case Nil
  then show ?case by simp
next
  case (Cons c calls)
  obtain now request where c: "c = (now, request)" by (cases c)
  have "totalErrors (memory (snd (POST now request w))) =
          totalErrors (memory w) + length (completedRecord (now, request))"
    using run_cases [of request now w]
    by (auto simp: process_memory)
  then show ?case by (simp add: c Cons.IH)
qed

lemma serve_sumCounts:
  "sumCounts (errorTypes (statistics (memory (serve calls w)))) =
     sumCounts (errorTypes (statistics (memory w))) + length (concat (map completedRecord calls))
   \<and> sumCounts (severityCount (statistics (memory (serve calls w)))) =
     sumCounts (severityCount (statistics (memory w))) + length (concat (map completedRecord calls))"
proof (induction calls arbitrary: w)
  case Nil
  then show ?case by simp
next
  case (Cons c calls)
  obtain now request where c: "c = (now, request)" by (cases c)
  have "sumCounts (errorTypes (statistics (memory (snd (POST now request w))))) =
          sumCounts (errorTypes (statistics (memory w))) + length (completedRecord (now, request))
      \<and> sumCounts (severityCount (statistics (memory (snd (POST now request w))))) =
          sumCounts (severityCount (statistics (memory w))) + length (completedRecord (now, request))"
    using run_cases [of request now w]
    by (auto simp: process_memory sumCounts_increment)
  then show ?case by (simp add: c Cons.IH)
qed

text \<open>
  C9. Requests in flight together interleave at the awaits of \<open>POST\<close>. For every
  schedule of such an interleaving, from any state and with any requests, let N be the
  number of requests that have carried out their update of the store. Then the store
  reached is the store that serving those N requests one after the other, in some
  order, gives; \<open>totalErrors\<close> is N more than at the start; and so are the sum of the
  counts in \<open>errorTypes\<close> and the sum of the counts in \<open>severityCount\<close>: no increment
  is lost, counted twice or skipped.
\<close>

theorem interleaved_updates_serial:
  assumes "run schedule (w0, map Received requests) = (w, tasks)"
  shows "\<exists>calls.
      mset (map snd calls) = mset (committedRequests requests tasks)
    \<and> length calls = length (filter committed tasks)
    \<and> memory w = memory (serve calls w0)
    \<and> totalErrors (memory w) = totalErrors (memory w0) + length (filter committed tasks)
    \<and> sumCounts (errorTypes (statistics (memory w))) =
        sumCounts (errorTypes (statistics (memory w0))) + length (filter committed tasks)
    \<and> sumCounts (severityCount (statistics (memory w))) =
        sumCounts (severityCount (statistics (memory w0))) + length (filter committed tasks)"
proof -
  have "serialised w0 requests (run schedule (w0, map Received requests))"
    using serialised_initial by (rule serialised_run)
  with assms obtain hist where tr: "list_all2 tracks requests tasks"
    and d: "list_all (\<lambda>c. accepted (snd c)) hist"
    "mset (map snd hist) = mset (committedRequests requests tasks)"
    "memory w = memory (serve hist w0)"
    by (auto simp: serialised_def)
  from tr have "length requests = length tasks" by (rule list_all2_lengthD)
  then have "length (committedRequests requests tasks) = length (filter committed tasks)"
    by (rule length_committedRequests)
  moreover have "length hist = length (committedRequests requests tasks)"
    using d(2) by (metis length_map size_mset)
  ultimately have n: "length hist = length (filter committed tasks)" by simp
  have c: "length (concat (map completedRecord hist)) = length hist"
    using d(1) by (rule length_concat_completedRecord)
  show ?thesis
    using d(2,3) n c serve_totalErrors [of hist w0] serve_sumCounts [of hist w0]
    by (intro exI [of _ hist]) simp
qed

text \<open>
  The theorem at two requests from the empty store, interleaved so that the second
  is validated first and updates the store first: both updates are counted, and the
  store is that of serving the two requests in some order.
\<close>

theorem interleaved_updates_serial_witness:
  "totalErrors (memory (fst (run [(0, tick), (1, tick), (1, tick), (0, tick), (1, tick), (0, tick)]
      (start, map Received [Body (JString ''type warning'') ''evt_1'',
                            Body (JString ''Fatal network error'') ''evt_2''])))) = 2
   \<and> sumCounts (errorTypes (statistics (memory (fst
        (run [(0, tick), (1, tick), (1, tick), (0, tick), (1, tick), (0, tick)]
      (start, map Received [Body (JString ''type warning'') ''evt_1'',
                            Body (JString ''Fatal network error'') ''evt_2'']))))))  = 2
   \<and> sumCounts (severityCount (statistics (memory (fst
        (run [(0, tick), (1, tick), (1, tick), (0, tick), (1, tick), (0, tick)]
      (start, map Received [Body (JString ''type warning'') ''evt_1'',
                            Body (JString ''Fatal network error'') ''evt_2'']))))))  = 2
   \<and> (\<exists>calls. mset (map snd calls) = mset [Body (JString ''type warning'') ''evt_1'',
                            Body (JString ''Fatal network error'') ''evt_2'']
        \<and> memory (fst (run [(0, tick), (1, tick), (1, tick), (0, tick), (1, tick), (0, tick)]
      (start, map Received [Body (JString ''type warning'') ''evt_1'',
                            Body (JString ''Fatal network error'') ''evt_2'']))) =
          memory (serve calls start))"
proof -
  define reqs where "reqs = [Body (JString ''type warning'') ''evt_1'',
                            Body (JString ''Fatal network error'') ''evt_2'']"
  define s where "s = run [(0, tick), (1, tick), (1, tick), (0, tick), (1, tick), (0, tick)]
      (start, map Received reqs)"
  have t: "map committed (snd s) = [True, True]"
    unfolding s_def reqs_def by (simp add: string_eval process_response)
  have "length (filter committed (snd s)) = length (filter id (map committed (snd s)))"
    by (simp add: filter_map comp_def)
  then have n: "length (filter committed (snd s)) = 2"
    by (simp only: t) simp
  have "length (map committed (snd s)) = 2" by (simp only: t) simp
  then have "length (snd s) = 2" by simp
  then obtain a b where ab: "snd s = [a, b]"
    by (auto simp: length_Suc_conv numeral_2_eq_2)
  have c: "committedRequests reqs (snd s) = reqs"
    using t unfolding committedRequests_def reqs_def ab by simp
  have z: "totalErrors (memory start) = 0" "sumCounts (errorTypes (statistics (memory start))) = 0"
    "sumCounts (severityCount (statistics (memory start))) = 0"
    by (simp_all add: start_def sumCounts_def)
  have r: "run [(0, tick), (1, tick), (1, tick), (0, tick), (1, tick), (0, tick)]
      (start, map Received reqs) = (fst s, snd s)" by (simp add: s_def)
  have "totalErrors (memory (fst s)) = 2
      \<and> sumCounts (errorTypes (statistics (memory (fst s)))) = 2
      \<and> sumCounts (severityCount (statistics (memory (fst s)))) = 2
      \<and> (\<exists>calls. mset (map snd calls) = mset reqs
            \<and> memory (fst s) = memory (serve calls start))"
    using interleaved_updates_serial [OF r] unfolding n c z by auto
  then show ?thesis unfolding s_def reqs_def .
qed

end
